theory Spec2Isabelle
  imports
    Main
    "HOL-Library.AList"
    "HOL-Library.Sublist"
    "HOL-Library.Char_ord"
    "HOL-Library.List_Lexorder"
    "HOL-Library.Sorting_Algorithms"
begin

section \<open>Strings\<close>

text \<open>
  A JavaScript string is a sequence of UTF-16 code units.  The development models a
  string as a \<^typ>\<open>string\<close>, one \<^typ>\<open>char\<close> per code unit, and so covers the texts
  whose code units are below 256 (ASCII and Latin-1, which holds the Portuguese
  letters of the playlist this program downloads).
\<close>

text \<open>
  \<^verbatim>\<open>String.prototype.trim\<close> removes white space and line terminators from both
  ends.  Below 256 these are TAB, LF, VT, FF, CR, SPACE and NBSP.
\<close>

definition isWhiteSpace :: "char \<Rightarrow> bool" where
  "isWhiteSpace c \<longleftrightarrow>
     c \<in> set [CHR 0x09, CHR 0x0A, CHR 0x0B, CHR 0x0C, CHR 0x0D, CHR 0x20, CHR 0xA0]"

definition trim :: "string \<Rightarrow> string" where
  "trim s = rev (dropWhile isWhiteSpace (rev (dropWhile isWhiteSpace s)))"

text \<open>
  \<^verbatim>\<open>String.prototype.toLowerCase\<close>, code unit by code unit: below 256 the letters
  with a lower-case partner are A to Z and U+00C0 to U+00DE without the
  multiplication sign U+00D7, and the partner is 32 further on.
\<close>

definition toLowerChar :: "char \<Rightarrow> char" where
  "toLowerChar c =
     (let n = (of_char c :: nat)
      in if (65 \<le> n \<and> n \<le> 90) \<or> (192 \<le> n \<and> n \<le> 222 \<and> n \<noteq> 215)
         then char_of (n + 32) else c)"

definition toLowerCase :: "string \<Rightarrow> string" where
  "toLowerCase s = map toLowerChar s"

text \<open>\<^verbatim>\<open>s.startsWith(p)\<close> is \<^term>\<open>prefix p s\<close>.  \<^verbatim>\<open>t.includes(q)\<close>:\<close>

fun includes_str :: "string \<Rightarrow> string \<Rightarrow> bool" where
  "includes_str [] q \<longleftrightarrow> q = []"
| "includes_str (c # cs) q \<longleftrightarrow> prefix q (c # cs) \<or> includes_str cs q"

text \<open>
  \<^verbatim>\<open>text.split(/\r?\n/)\<close>: a line ends at LF or at CR LF; a CR that no LF follows
  stays in its line.  The empty text splits into one empty line.
\<close>

fun splitLines :: "string \<Rightarrow> string list" where
  "splitLines [] = [[]]"
| "splitLines (c # cs) =
     (if c = CHR 0x0A then [] # splitLines cs
      else if c = CHR 0x0D \<and> cs \<noteq> [] \<and> hd cs = CHR 0x0A then [] # splitLines (tl cs)
      else (case splitLines cs of
              [] \<Rightarrow> [[c]]
            | l # ls \<Rightarrow> (c # l) # ls))"

text \<open>\<^verbatim>\<open>line.split(',')\<close>, and \<^verbatim>\<open>pop()\<close> of its result, which is never empty.\<close>

fun splitComma :: "string \<Rightarrow> string list" where
  "splitComma [] = [[]]"
| "splitComma (c # cs) =
     (if c = CHR '','' then [] # splitComma cs
      else (case splitComma cs of
              [] \<Rightarrow> [[c]]
            | l # ls \<Rightarrow> (c # l) # ls))"

definition pop :: "string list \<Rightarrow> string option" where
  "pop xs = (if xs = [] then None else Some (last xs))"

section \<open>The playlist parser\<close>

record Channel =
  name :: string
  url :: string
  group :: "string option"
  logo :: "string option"
  attrs :: "(string \<times> string) list"

subsection \<open>Attribute extraction\<close>

text \<open>
  The scan \<^verbatim>\<open>/([a-zA-Z0-9_-]+?)="([^"]*)"/g\<close>.  A match that starts at the head of
  \<open>s\<close> takes key characters up to the first character that is none; the lazy
  quantifier has no other choice, since the next pattern character \<^verbatim>\<open>=\<close> is no
  key character.  Then come \<^verbatim>\<open>="\<close>, the characters up to the next double quote,
  and that quote.  The result is the key, the value and the text after the match.
\<close>

definition isKeyChar :: "char \<Rightarrow> bool" where
  "isKeyChar c \<longleftrightarrow>
     c \<in> set ''abcdefghijklmnopqrstuvwxyzABCDEFGHIJKLMNOPQRSTUVWXYZ0123456789_-''"

definition isQuote :: "char \<Rightarrow> bool" where
  "isQuote c \<longleftrightarrow> c = CHR 0x22"

definition matchAt :: "string \<Rightarrow> (string \<times> string \<times> string) option" where
  "matchAt s =
     (let k = takeWhile isKeyChar s; r = dropWhile isKeyChar s
      in if k = [] then None
         else if prefix [CHR ''='', CHR 0x22] r
         then (let r' = drop 2 r;
                   v = takeWhile (\<lambda>c. \<not> isQuote c) r';
                   r'' = dropWhile (\<lambda>c. \<not> isQuote c) r'
               in if r'' = [] then None else Some (k, v, tl r''))
         else None)"

text \<open>\<^verbatim>\<open>attrRegex.exec(line)\<close>: the leftmost match at or after the current position.\<close>

fun exec :: "string \<Rightarrow> (string \<times> string \<times> string) option" where
  "exec [] = None"
| "exec (c # cs) =
     (case matchAt (c # cs) of
        Some m \<Rightarrow> Some m
      | None \<Rightarrow> exec cs)"

lemma matchAt_shorter:
  "matchAt s = Some (k, v, r) \<Longrightarrow> length r < length s"
proof -
  assume m: "matchAt s = Some (k, v, r)"
  let ?r = "dropWhile isKeyChar s"
  let ?r' = "drop 2 ?r"
  let ?r'' = "dropWhile (\<lambda>c. \<not> isQuote c) ?r'"
  from m have ne: "?r'' \<noteq> []" and r: "r = tl ?r''"
    by (auto simp: matchAt_def Let_def split: if_splits)
  from ne have "length r < length ?r''"
    by (simp add: r)
  also have "\<dots> \<le> length ?r'"
    by (rule length_dropWhile_le)
  also have "\<dots> \<le> length ?r"
    by simp
  also have "\<dots> \<le> length s"
    by (rule length_dropWhile_le)
  finally show ?thesis .
qed

lemma exec_shorter:
  "exec s = Some (k, v, r) \<Longrightarrow> length r < length s"
proof (induction s)
  case Nil
  then show ?case by simp
next
  case (Cons c cs)
  show ?case
  proof (cases "matchAt (c # cs)")
    case None
    with Cons show ?thesis by fastforce
  next
    case (Some m)
    with Cons.prems show ?thesis
      using matchAt_shorter [of "c # cs" k v r] by simp
  qed
qed

text \<open>
  The loop \<^verbatim>\<open>while ((match = attrRegex.exec(line))) ...\<close>: the matches in the order
  the scan finds them, each search starting where the match before ended.
\<close>

function scanAttrs :: "string \<Rightarrow> (string \<times> string) list" where
  "scanAttrs s =
     (case exec s of
        None \<Rightarrow> []
      | Some (k, v, r) \<Rightarrow> (k, v) # scanAttrs r)"
  by pat_completeness auto
termination
  by (relation "measure length") (auto dest: exec_shorter)

text \<open>
  \<^verbatim>\<open>attrs[match[1]] = match[2]\<close> on \<^verbatim>\<open>attrs = {}\<close>.  The object is an ordinary one,
  with \<^verbatim>\<open>Object.prototype\<close> behind it, so the key \<^verbatim>\<open>__proto__\<close> reaches the
  inherited setter, which ignores a value that is a string: no property is stored.
  Any other key is stored, in place when the object has it, at the end otherwise.
\<close>

definition assign :: "(string \<times> string) list \<Rightarrow> string \<Rightarrow> string \<Rightarrow> (string \<times> string) list" where
  "assign obj k v = (if k = ''__proto__'' then obj else AList.update k v obj)"

definition extractAttrs :: "string \<Rightarrow> (string \<times> string) list" where
  "extractAttrs line =
     foldl (\<lambda>obj (k, v). if k \<noteq> [] then assign obj k v else obj) [] (scanAttrs line)"

text \<open>\<^verbatim>\<open>attrs[key] || undefined\<close>: an empty string is falsy.\<close>

definition truthy :: "string option \<Rightarrow> string option" where
  "truthy x = (case x of None \<Rightarrow> None | Some v \<Rightarrow> if v = [] then None else Some v)"

definition orElse :: "string option \<Rightarrow> string option \<Rightarrow> string option" where
  "orElse x y = (case truthy x of Some v \<Rightarrow> Some v | None \<Rightarrow> y)"

subsection \<open>The name, the locator and the records\<close>

text \<open>\<^verbatim>\<open>(line.split(',').pop() || '').trim()\<close>\<close>

definition extractName :: "string \<Rightarrow> string" where
  "extractName line = trim (case pop (splitComma line) of None \<Rightarrow> [] | Some s \<Rightarrow> s)"

text \<open>
  The inner loop: the first of the following lines that, trimmed, is not empty and does
  not start with \<^verbatim>\<open>#\<close>, and the lines after it; \<open>None\<close> when the input ends first.
\<close>

fun findUrl :: "string list \<Rightarrow> (string \<times> string list) option" where
  "findUrl [] = None"
| "findUrl (l # ls) =
     (let maybe = trim l
      in if maybe \<noteq> [] \<and> \<not> prefix ''#'' maybe then Some (maybe, ls) else findUrl ls)"

lemma findUrl_shorter:
  "findUrl ls = Some (u, rest) \<Longrightarrow> length rest < length ls"
  by (induction ls) (auto simp: Let_def split: if_splits)

definition mkChannel :: "string \<Rightarrow> string \<Rightarrow> Channel" where
  "mkChannel line u =
     (let a = extractAttrs line
      in \<lparr> name = extractName line,
           url = u,
           group = orElse (map_of a ''group-title'') (orElse (map_of a ''group'') None),
           logo = orElse (map_of a ''tvg-logo'') None,
           attrs = a \<rparr>)"

text \<open>
  The outer loop over the lines from the current index on.  A line that is no marker
  is passed over.  At a marker the inner loop moves the index: when it finds a locator
  the record is pushed and the loop goes on behind the locator; when it runs to the end
  of the input nothing is pushed and the loop is over.
\<close>

function parseLines :: "string list \<Rightarrow> Channel list" where
  "parseLines [] = []"
| "parseLines (l # ls) =
     (if trim l = [] \<or> \<not> prefix ''#EXTINF'' (trim l) then parseLines ls
      else (case findUrl ls of
              None \<Rightarrow> []
            | Some (u, rest) \<Rightarrow> mkChannel (trim l) u # parseLines rest))"
  by pat_completeness auto
termination
  by (relation "measure length") (auto dest: findUrl_shorter)

definition parseM3U :: "string \<Rightarrow> Channel list" where
  "parseM3U text = parseLines (splitLines text)"

section \<open>The view: groups, filter and navigation\<close>

text \<open>
  A JavaScript number as far as \<^verbatim>\<open>groupIdx\<close> needs it: an integer or \<^verbatim>\<open>NaN\<close>.
  \<^verbatim>\<open>a % b\<close> is \<^verbatim>\<open>NaN\<close> for \<^verbatim>\<open>b = 0\<close> and otherwise the remainder that has the sign
  of \<open>a\<close>.
\<close>

datatype jsnum = Num int | NaN




text \<open>\<^verbatim>\<open>xs[i]\<close>: \<^verbatim>\<open>undefined\<close> (here \<open>None\<close>) outside the array and at \<^verbatim>\<open>NaN\<close>.\<close>

fun js_index :: "'a list \<Rightarrow> jsnum \<Rightarrow> 'a option" where
  "js_index xs (Num i) = (if 0 \<le> i \<and> i < int (length xs) then Some (xs ! nat i) else None)"
| "js_index xs NaN = None"

text \<open>What the footer shows.\<close>

datatype status_msg =
    Loading                 \<comment> \<open>the footer's first content\<close>
  | Downloading             \<comment> \<open>\<^verbatim>\<open>Downloading playlist...\<close>\<close>
  | Loaded nat int          \<comment> \<open>\<^verbatim>\<open>Loaded n channels. Groups: m.\<close>\<close>
  | Failed string           \<comment> \<open>the message of the error, in red\<close>

text \<open>
  The module's variables \<^verbatim>\<open>all\<close>, \<^verbatim>\<open>filtered\<close>, \<^verbatim>\<open>groups\<close>, \<^verbatim>\<open>groupIdx\<close>, and of the
  widgets what the code reads and writes: the text of the search box, the selected
  row of the list and the footer.
\<close>

record state =
  all :: "Channel list"
  filtered :: "Channel list"
  groups :: "string list"
  groupIdx :: jsnum
  searchValue :: string
  selected :: nat
  footer :: status_msg

definition initial :: state where
  "initial = \<lparr> all = [], filtered = [], groups = [], groupIdx = Num 0,
               searchValue = [], selected = 0, footer = Loading \<rparr>"

text \<open>A \<^verbatim>\<open>Set\<close> keeps its members in the order they were first added.\<close>

definition set_add :: "string list \<Rightarrow> string \<Rightarrow> string list" where
  "set_add s x = (if x \<in> set s then s else s @ [x])"

text \<open>
  \<^verbatim>\<open>computeGroups\<close>: \<open>collectGroups\<close> is the \<^verbatim>\<open>forEach\<close> that fills the set, with the guard
  \<^verbatim>\<open>c.group &&\<close>.  The order of \<^verbatim>\<open>a.localeCompare(b)\<close> depends on the locale of the host
  and is a parameter, a comparator \<open>lc\<close>; \<^verbatim>\<open>Array.prototype.sort\<close> is stable.
\<close>

definition collectGroups :: "Channel list \<Rightarrow> string list" where
  "collectGroups cs =
     foldl (\<lambda>s c. case group c of
                     None \<Rightarrow> s
                   | Some g \<Rightarrow> if g \<noteq> [] then set_add s g else s) [] cs"

definition computeGroups :: "string comparator \<Rightarrow> state \<Rightarrow> state" where
  "computeGroups lc st =
     (let s = collectGroups (all st)
      in st\<lparr> groups := ''All'' # Sorting_Algorithms.sort lc s \<rparr>)"

text \<open>\<^verbatim>\<open>groups[groupIdx] || 'All'\<close>\<close>

definition activeGroup :: "state \<Rightarrow> string" where
  "activeGroup st =
     (case js_index (groups st) (groupIdx st) of
        None \<Rightarrow> ''All''
      | Some g \<Rightarrow> if g \<noteq> [] then g else ''All'')"

text \<open>
  The predicate of \<^verbatim>\<open>all.filter\<close> in \<^verbatim>\<open>applyFilter\<close>, for the query \<open>q\<close> and group \<open>g\<close>;
  \<open>searchText\<close> is the template \<^verbatim>\<open>`${c.name} ${c.group || ''}`\<close>.
\<close>

definition searchText :: "Channel \<Rightarrow> string" where
  "searchText c = name c @ '' '' @ (case truthy (group c) of None \<Rightarrow> [] | Some cg \<Rightarrow> cg)"

definition keep :: "string \<Rightarrow> string \<Rightarrow> Channel \<Rightarrow> bool" where
  "keep q g c =
     (let inGroup = (g = ''All'' \<or>
                      (case group c of
                         None \<Rightarrow> False
                       | Some cg \<Rightarrow> toLowerCase cg = toLowerCase g));
          text = toLowerCase (searchText c)
      in inGroup \<and> (q = [] \<or> includes_str text q))"

definition applyFilter :: "state \<Rightarrow> state" where
  "applyFilter st =
     (let q = toLowerCase (trim (searchValue st));
          g = activeGroup st
      in st\<lparr> filtered := filter (keep q g) (all st), selected := 0 \<rparr>)"

text \<open>
  \<^verbatim>\<open>loadPlaylist\<close>, given what \<^verbatim>\<open>fetchText\<close> ends with: \<open>Inl\<close> the message of the error
  it throws, \<open>Inr\<close> the text.  The state is the one at the time the download ends.
\<close>

definition loadPlaylist :: "string comparator \<Rightarrow> string + string \<Rightarrow> state \<Rightarrow> state" where
  "loadPlaylist lc fetched st =
     (let st0 = st\<lparr> footer := Downloading \<rparr>
      in case fetched of
           Inl msg \<Rightarrow> st0\<lparr> footer := Failed msg \<rparr>
         | Inr text \<Rightarrow>
             (let st1 = st0\<lparr> all := parseM3U text \<rparr>
              in if length (all st1) = 0
                 then st1\<lparr> footer := Failed ''No channels found in playlist.'' \<rparr>
                 else (let st2 = computeGroups lc st1;
                           st3 = st2\<lparr> footer := Loaded (length (all st2))
                                                       (int (length (groups st2)) - 1) \<rparr>
                       in applyFilter st3)))"



definition submit :: "string \<Rightarrow> state \<Rightarrow> state" where
  "submit v st = applyFilter (st\<lparr> searchValue := v \<rparr>)"

section \<open>Notions for the statements\<close>

text \<open>A line that the inner loop of the parser passes over.\<close>

definition unusable :: "string \<Rightarrow> bool" where
  "unusable l \<longleftrightarrow> trim l = [] \<or> prefix ''#'' (trim l)"

text \<open>
  An attribute as it stands in a marker line: a separator that holds no double quote and
  does not end in a key character, the key, \<^verbatim>\<open>="\<close>, the value and the closing quote.
\<close>

definition item :: "string \<times> string \<times> string \<Rightarrow> string" where
  "item = (\<lambda>(sep, k, v). sep @ k @ [CHR ''='', CHR 0x22] @ v @ [CHR 0x22])"

definition wellFormed :: "string \<times> string \<times> string \<Rightarrow> bool" where
  "wellFormed = (\<lambda>(sep, k, v).
     list_all (\<lambda>c. \<not> isQuote c) sep \<and> (sep = [] \<or> \<not> isKeyChar (last sep)) \<and>
     k \<noteq> [] \<and> list_all isKeyChar k \<and> list_all (\<lambda>c. \<not> isQuote c) v)"

text \<open>The index \<open>groupIdx\<close> is one of \<open>groups\<close>.\<close>

definition inBounds :: "state \<Rightarrow> bool" where
  "inBounds st =
     (case groupIdx st of
        Num i \<Rightarrow> 0 \<le> i \<and> i < int (length (groups st))
      | NaN \<Rightarrow> False)"

text \<open>
  The filter of the specification, in its words: the active group is \<^verbatim>\<open>All\<close> or equals the
  entry's group without regard to case, and the query is empty or occurs, without regard
  to case, in the name, a space and the group.
\<close>

definition spec_visible :: "string \<Rightarrow> string \<Rightarrow> Channel \<Rightarrow> bool" where
  "spec_visible query active c \<longleftrightarrow>
     (active = ''All'' \<or>
      (case group c of
         None \<Rightarrow> False
       | Some cg \<Rightarrow> toLowerCase cg = toLowerCase active)) \<and>
     (query = [] \<or>
      sublist (toLowerCase query)
              (toLowerCase (name c @ '' '' @ (case group c of None \<Rightarrow> [] | Some cg \<Rightarrow> cg))))"

section \<open>Example inputs\<close>

text \<open>The double quote, and a text from its lines.\<close>

definition dquote :: string where
  "dquote = [CHR 0x22]"

fun joinLines :: "string list \<Rightarrow> string" where
  "joinLines [] = []"
| "joinLines [l] = l"
| "joinLines (l # ls) = l @ [CHR 0x0A] @ joinLines ls"

text \<open>A marker line whose \<^verbatim>\<open>group-title\<close> is the empty string.\<close>

definition emptyTitle :: string where
  "emptyTitle = joinLines
     [''#EXTINF:-1 group-title='' @ dquote @ dquote @ '' group='' @ dquote @ ''X'' @ dquote @ '',N'',
      ''http://x/1'']"

text \<open>Example 1 of the specification, its two records, and the state after loading it.\<close>

definition example1 :: string where
  "example1 = joinLines
     [''#EXTINF:-1 group-title='' @ dquote @ ''News'' @ dquote @ '',ACME News'',
      ''http://x/1'',
      ''#EXTINF:-1,Jazz FM'',
      ''http://x/2'']"

definition acmeNews :: Channel where
  "acmeNews = \<lparr>name = ''ACME News'', url = ''http://x/1'', group = Some ''News'',
                logo = None, attrs = [(''group-title'', ''News'')]\<rparr>"

definition jazzFM :: Channel where
  "jazzFM = \<lparr>name = ''Jazz FM'', url = ''http://x/2'', group = None, logo = None, attrs = []\<rparr>"

definition loaded1 :: state where
  "loaded1 = loadPlaylist default (Inr example1) initial"

text \<open>A playlist with three groups.\<close>

definition threeGroups :: string where
  "threeGroups = joinLines
     [''#EXTINF:-1 group-title='' @ dquote @ ''News'' @ dquote @ '',N'', ''http://x/1'',
      ''#EXTINF:-1 group-title='' @ dquote @ ''Music'' @ dquote @ '',M'', ''http://x/2'',
      ''#EXTINF:-1 group-title='' @ dquote @ ''Sport'' @ dquote @ '',S'', ''http://x/3'']"

text \<open>A marker line with the attribute \<^verbatim>\<open>__proto__\<close>.\<close>

definition protoLine :: string where
  "protoLine = ''#EXTINF:-1 __proto__='' @ dquote @ ''x'' @ dquote @
               '' tvg-id='' @ dquote @ ''a'' @ dquote @ '',N''"

section \<open>Properties of the parser\<close>

subsection \<open>The locator\<close>

lemma findUrl_Some:
  "findUrl ls = Some (u, rest) \<Longrightarrow>
     u \<noteq> [] \<and> \<not> prefix ''#'' u \<and>
     (\<exists>pre l. ls = pre @ l # rest \<and> u = trim l \<and> (\<forall>x\<in>set pre. unusable x))"
proof (induction ls)
  case Nil
  then show ?case by simp
next
  case (Cons a ls)
  show ?case
  proof (cases "trim a \<noteq> [] \<and> \<not> prefix ''#'' (trim a)")
    case True
    with Cons.prems have "u = trim a" "rest = ls" by (simp_all add: Let_def)
    with True show ?thesis by (intro conjI exI [of _ "[]"] exI [of _ a]) simp_all
  next
    case False
    with Cons.prems have "findUrl ls = Some (u, rest)" by (auto simp: Let_def)
    from Cons.IH [OF this] obtain pre l where
      u: "u \<noteq> []" "\<not> prefix ''#'' u" and
      ls: "ls = pre @ l # rest" "u = trim l" "\<forall>x\<in>set pre. unusable x" by blast
    from False have "unusable a" by (auto simp: unusable_def)
    with ls have "a # ls = (a # pre) @ l # rest \<and> u = trim l \<and> (\<forall>x\<in>set (a # pre). unusable x)"
      by simp
    with u show ?thesis by blast
  qed
qed

lemma findUrl_None:
  "findUrl ls = None \<longleftrightarrow> (\<forall>x\<in>set ls. unusable x)"
  by (induction ls) (auto simp: Let_def unusable_def)

lemma findUrl_append_unusable:
  assumes "\<forall>x\<in>set suf. unusable x"
  shows "findUrl (ls @ suf) = map_option (\<lambda>(u, r). (u, r @ suf)) (findUrl ls)"
proof (induction ls)
  case Nil
  from assms have "findUrl suf = None" by (simp add: findUrl_None)
  then show ?case by simp
next
  case (Cons a ls)
  then show ?case by (simp add: Let_def)
qed

lemma parseLines_append_unusable:
  assumes "\<forall>x\<in>set suf. unusable x"
  shows "parseLines (ls @ suf) = parseLines ls"
proof (induction ls rule: parseLines.induct)
  case 1
  from assms show ?case
  proof (induction suf)
    case Nil
    then show ?case by simp
  next
    case (Cons a suf)
    then have "findUrl suf = None" by (simp add: findUrl_None)
    with Cons show ?case by simp
  qed
next
  case (2 l ls)
  show ?case
  proof (cases "trim l = [] \<or> \<not> prefix ''#EXTINF'' (trim l)")
    case True
    with 2 show ?thesis by simp
  next
    case False
    show ?thesis
    proof (cases "findUrl ls")
      case None
      with False show ?thesis by (simp add: findUrl_append_unusable [OF assms])
    next
      case (Some p)
      obtain u rest where p: "p = (u, rest)" by (cases p)
      from 2(2) [OF False Some [unfolded p]] have "parseLines (rest @ suf) = parseLines rest" by simp
      with False Some p show ?thesis by (simp add: findUrl_append_unusable [OF assms])
    qed
  qed
qed

lemma parseLines_records:
  "c \<in> set (parseLines ls) \<Longrightarrow>
     \<exists>l u. l \<in> set ls \<and> prefix ''#EXTINF'' (trim l) \<and> u \<noteq> [] \<and> c = mkChannel (trim l) u"
proof (induction ls rule: parseLines.induct)
  case 1
  then show ?case by simp
next
  case (2 l ls)
  show ?case
  proof (cases "trim l = [] \<or> \<not> prefix ''#EXTINF'' (trim l)")
    case True
    with 2 show ?thesis by auto
  next
    case False
    show ?thesis
    proof (cases "findUrl ls")
      case None
      with False 2(3) show ?thesis by simp
    next
      case (Some p)
      obtain u rest where p: "p = (u, rest)" by (cases p)
      from Some p have f: "findUrl ls = Some (u, rest)" by simp
      from findUrl_Some [OF f] have u: "u \<noteq> []" and sub: "set rest \<subseteq> set ls" by auto
      from False f 2(3) have "c = mkChannel (trim l) u \<or> c \<in> set (parseLines rest)" by simp
      then show ?thesis
      proof
        assume "c = mkChannel (trim l) u"
        with False u show ?thesis by auto
      next
        assume "c \<in> set (parseLines rest)"
        from 2(2) [OF False f refl this] sub show ?thesis by auto
      qed
    qed
  qed
qed

text \<open>
  Claim C4.  Every record that \<open>parseM3U\<close> emits has a non-empty \<open>url\<close>.  And when, after a
  marker line \<open>m\<close> of the text, every line up to the end of the input is empty or starts
  with \<^verbatim>\<open>#\<close>, the scan that stands at \<open>m\<close> emits nothing, and the records of the whole text
  are those of the lines before \<open>m\<close>.
\<close>

theorem parseM3U_url_nonempty:
  "(\<forall>c\<in>set (parseM3U text). url c \<noteq> []) \<and>
   (\<forall>pre m rest.
      splitLines text = pre @ m # rest \<and> prefix ''#EXTINF'' (trim m) \<and>
      (\<forall>l\<in>set rest. unusable l) \<longrightarrow>
      parseLines (m # rest) = [] \<and> parseM3U text = parseLines pre)"
proof (intro conjI ballI allI impI)
  fix c
  assume "c \<in> set (parseM3U text)"
  then obtain l u where "u \<noteq> []" "c = mkChannel (trim l) u"
    unfolding parseM3U_def by (blast dest: parseLines_records)
  then show "url c \<noteq> []"
    by (simp add: mkChannel_def Let_def)
next
  fix pre m rest
  assume a: "splitLines text = pre @ m # rest \<and> prefix ''#EXTINF'' (trim m) \<and>
    (\<forall>l\<in>set rest. unusable l)"
  then have "prefix ''#'' (trim m)"
    by (auto simp: prefix_def)
  with a have un: "\<forall>l\<in>set (m # rest). unusable l"
    by (simp add: unusable_def)
  from parseLines_append_unusable [OF un, of "[]"]
  show "parseLines (m # rest) = []"
    by simp
  from a parseLines_append_unusable [OF un, of pre]
  show "parseM3U text = parseLines pre"
    by (simp add: parseM3U_def)
qed

theorem parseM3U_url_nonempty_witness:
  "parseM3U (''#EXTINF:-1,A'' @ [CHR 0x0A] @ ''http://a'' @ [CHR 0x0A] @
             ''#EXTINF:-1,B'' @ [CHR 0x0A] @ ''#note'' @ [CHR 0x0A] @ ''  '')
     = parseLines [''#EXTINF:-1,A'', ''http://a''] \<and>
   parseLines [''#EXTINF:-1,B'', ''#note'', ''  ''] = [] \<and>
   url (hd (parseLines [''#EXTINF:-1,A'', ''http://a''])) = ''http://a''"
proof -
  let ?t = "''#EXTINF:-1,A'' @ [CHR 0x0A] @ ''http://a'' @ [CHR 0x0A] @
            ''#EXTINF:-1,B'' @ [CHR 0x0A] @ ''#note'' @ [CHR 0x0A] @ ''  ''"
  have sp: "splitLines ?t = [''#EXTINF:-1,A'', ''http://a''] @ ''#EXTINF:-1,B'' # [''#note'', ''  '']"
    by code_simp
  have mk: "prefix ''#EXTINF'' (trim ''#EXTINF:-1,B'')"
    by code_simp
  have un: "\<forall>l\<in>set [''#note'', ''  '']. unusable l"
    by code_simp
  have u: "url (hd (parseLines [''#EXTINF:-1,A'', ''http://a''])) = ''http://a''"
    by code_simp
  from parseM3U_url_nonempty [of ?t] sp mk un
  have "parseLines [''#EXTINF:-1,B'', ''#note'', ''  ''] = [] \<and>
        parseM3U ?t = parseLines [''#EXTINF:-1,A'', ''http://a'']"
    by blast
  with u show ?thesis
    by simp
qed

subsection \<open>The name\<close>

lemma splitComma_nonempty: "splitComma s \<noteq> []"
  by (induction s) (auto split: list.splits)

lemma splitComma_no_comma: "CHR '','' \<notin> set s \<Longrightarrow> splitComma s = [s]"
  by (induction s) auto

lemma splitComma_append:
  "\<exists>xs. xs \<noteq> [] \<and> splitComma (a @ CHR '','' # b) = xs @ splitComma b"
proof (induction a)
  case Nil
  have "splitComma ([] @ CHR '','' # b) = [[]] @ splitComma b" by simp
  then show ?case by blast
next
  case (Cons c a)
  then obtain x xs where xs: "splitComma (a @ CHR '','' # b) = (x # xs) @ splitComma b"
    by (metis list.exhaust)
  show ?case
  proof (cases "c = CHR '',''")
    case True
    with xs have "splitComma ((c # a) @ CHR '','' # b) = ([] # x # xs) @ splitComma b" by simp
    then show ?thesis by blast
  next
    case False
    with xs have "splitComma ((c # a) @ CHR '','' # b) = ((c # x) # xs) @ splitComma b" by simp
    then show ?thesis by blast
  qed
qed

lemma pop_splitComma_after:
  assumes "CHR '','' \<notin> set b"
  shows "pop (splitComma (a @ CHR '','' # b)) = Some b"
proof -
  obtain xs where "splitComma (a @ CHR '','' # b) = xs @ splitComma b"
    using splitComma_append by blast
  with assms show ?thesis
    by (simp add: pop_def splitComma_no_comma)
qed

lemma rev_dropWhile_rev_hd:
  assumes "xs = [] \<or> \<not> P (hd xs)"
  shows "rev (dropWhile P (rev xs)) = [] \<or> \<not> P (hd (rev (dropWhile P (rev xs))))"
proof (cases xs)
  case Nil
  then show ?thesis by simp
next
  case (Cons x ys)
  with assms have "\<not> P x" by simp
  then have "dropWhile P (rev ys @ [x]) = dropWhile P (rev ys) @ [x]"
    by (simp add: dropWhile_append3)
  with Cons \<open>\<not> P x\<close> show ?thesis by simp
qed

lemma trim_trim: "trim (trim s) = trim s"
proof -
  let ?d = "dropWhile isWhiteSpace s"
  have d: "?d = [] \<or> \<not> isWhiteSpace (hd ?d)"
    using hd_dropWhile [of isWhiteSpace s] by blast
  have "trim s = [] \<or> \<not> isWhiteSpace (hd (trim s))"
    unfolding trim_def
    by (rule rev_dropWhile_rev_hd [of "dropWhile isWhiteSpace s" isWhiteSpace, OF d])
  then have a: "dropWhile isWhiteSpace (trim s) = trim s"
    by (simp add: dropWhile_eq_self_iff)
  have b: "rev (trim s) = dropWhile isWhiteSpace (rev ?d)"
    by (simp add: trim_def)
  have "trim (trim s) = rev (dropWhile isWhiteSpace (rev (trim s)))"
    unfolding trim_def [of "trim s"] a ..
  also have "\<dots> = rev (dropWhile isWhiteSpace (rev ?d))"
    unfolding b by simp
  also have "\<dots> = trim s"
    by (simp add: trim_def)
  finally show ?thesis .
qed

lemma extractName_after_comma:
  "CHR '','' \<notin> set b \<Longrightarrow> extractName (a @ CHR '','' # b) = trim b"
  by (simp add: extractName_def pop_splitComma_after)

lemma extractName_no_comma:
  "CHR '','' \<notin> set s \<Longrightarrow> extractName s = trim s"
  by (simp add: extractName_def splitComma_no_comma pop_def)

text \<open>
  The name of the record that the scan emits at a marker line: the text after the last
  comma of the trimmed line, trimmed, when the line has a comma, and the whole trimmed
  line when it has none.
\<close>

lemma parseLines_marker_name:
  assumes "prefix ''#EXTINF'' (trim l)" and "findUrl ls = Some (u, rest)"
  shows "\<exists>c. parseLines (l # ls) = c # parseLines rest \<and>
           (\<forall>a b. trim l = a @ CHR '','' # b \<and> CHR '','' \<notin> set b \<longrightarrow> name c = trim b) \<and>
           (CHR '','' \<notin> set (trim l) \<longrightarrow> name c = trim l)"
proof -
  from assms(1) have ne: "trim l \<noteq> []"
    by auto
  with assms have p: "parseLines (l # ls) = mkChannel (trim l) u # parseLines rest"
    by simp
  have n: "name (mkChannel (trim l) u) = extractName (trim l)"
    by (simp add: mkChannel_def Let_def)
  have "\<forall>a b. trim l = a @ CHR '','' # b \<and> CHR '','' \<notin> set b \<longrightarrow>
          name (mkChannel (trim l) u) = trim b"
    unfolding n by (metis extractName_after_comma)
  moreover have "CHR '','' \<notin> set (trim l) \<longrightarrow> name (mkChannel (trim l) u) = trim l"
    by (simp add: n extractName_no_comma trim_trim)
  ultimately show ?thesis
    using p by blast
qed

text \<open>
  Claim C3 at the marker line \<^verbatim>\<open>#EXTINF:-1\<close>, which has no comma.  The claim gives its record
  the empty name.  The code takes the last piece of \<^verbatim>\<open>line.split(',')\<close>, which for a line
  with no comma is the line itself, so the record is named \<^verbatim>\<open>#EXTINF:-1\<close>.
\<close>

theorem name_without_comma_is_whole_line:
  "parseM3U (joinLines [''#EXTINF:-1'', ''http://x/1'']) =
     [\<lparr>name = ''#EXTINF:-1'', url = ''http://x/1'', group = None, logo = None, attrs = []\<rparr>] \<and>
   CHR '','' \<notin> set ''#EXTINF:-1'' \<and> ''#EXTINF:-1'' \<noteq> []"
  by code_simp

subsection \<open>The group\<close>

text \<open>
  Claim C8, as the code has it.  The \<open>group\<close> of every emitted record is the value of the
  attribute \<^verbatim>\<open>group-title\<close> when that is present and not empty, otherwise the value of
  the attribute \<^verbatim>\<open>group\<close> when that is present and not empty, otherwise absent.
\<close>

theorem group_resolution:
  "\<forall>c\<in>set (parseM3U text).
     group c =
       (if \<exists>v. map_of (attrs c) ''group-title'' = Some v \<and> v \<noteq> []
        then map_of (attrs c) ''group-title''
        else if \<exists>v. map_of (attrs c) ''group'' = Some v \<and> v \<noteq> []
        then map_of (attrs c) ''group''
        else None)"
proof
  fix c
  assume "c \<in> set (parseM3U text)"
  then obtain l u where c: "c = mkChannel (trim l) u"
    unfolding parseM3U_def by (blast dest: parseLines_records)
  show "group c =
       (if \<exists>v. map_of (attrs c) ''group-title'' = Some v \<and> v \<noteq> []
        then map_of (attrs c) ''group-title''
        else if \<exists>v. map_of (attrs c) ''group'' = Some v \<and> v \<noteq> []
        then map_of (attrs c) ''group''
        else None)"
    unfolding c mkChannel_def Let_def orElse_def truthy_def
    by (auto split: option.splits)
qed

theorem group_resolution_witness:
  "group (hd (parseM3U emptyTitle)) = map_of (attrs (hd (parseM3U emptyTitle))) ''group''"
proof -
  have p: "parseM3U emptyTitle =
     [\<lparr>name = ''N'', url = ''http://x/1'', group = Some ''X'', logo = None,
       attrs = [(''group-title'', []), (''group'', ''X'')]\<rparr>]"
    by code_simp
  then have "hd (parseM3U emptyTitle) \<in> set (parseM3U emptyTitle)"
    by simp
  with group_resolution [of emptyTitle]
  have "group (hd (parseM3U emptyTitle)) =
       (if \<exists>v. map_of (attrs (hd (parseM3U emptyTitle))) ''group-title'' = Some v \<and> v \<noteq> []
        then map_of (attrs (hd (parseM3U emptyTitle))) ''group-title''
        else if \<exists>v. map_of (attrs (hd (parseM3U emptyTitle))) ''group'' = Some v \<and> v \<noteq> []
        then map_of (attrs (hd (parseM3U emptyTitle))) ''group''
        else None)"
    by blast
  then show ?thesis
    by (simp add: p)
qed

text \<open>
  Counterexample to claim C8, which as stated takes the value of \<^verbatim>\<open>group-title\<close> whenever
  the attribute is present.  Here it is present with the empty value, and the group is
  that of the attribute \<^verbatim>\<open>group\<close>.
\<close>

theorem group_resolution_counterexample:
  "parseM3U emptyTitle =
     [\<lparr>name = ''N'', url = ''http://x/1'', group = Some ''X'', logo = None,
       attrs = [(''group-title'', []), (''group'', ''X'')]\<rparr>] \<and>
   map_of [(''group-title'', []), (''group'', ''X'')] ''group-title'' = Some [] \<and>
   Some ''X'' \<noteq> Some []"
  by code_simp

subsection \<open>Attribute extraction\<close>

lemma not_key_chars: "\<not> isKeyChar (CHR ''='')" "\<not> isKeyChar (CHR 0x22)"
  by (simp_all add: isKeyChar_def)

lemma matchAt_key:
  assumes "k \<noteq> []" and "list_all isKeyChar k" and "list_all (\<lambda>c. \<not> isQuote c) v"
  shows "matchAt (k @ [CHR ''='', CHR 0x22] @ v @ [CHR 0x22] @ rest) = Some (k, v, rest)"
proof -
  let ?s = "k @ CHR ''='' # CHR 0x22 # v @ CHR 0x22 # rest"
  from assms(2) have t: "takeWhile isKeyChar ?s = k"
    by (simp add: takeWhile_append2 list_all_iff not_key_chars)
  from assms(2) have d: "dropWhile isKeyChar ?s = CHR ''='' # CHR 0x22 # v @ CHR 0x22 # rest"
    by (simp add: dropWhile_append2 list_all_iff not_key_chars)
  from assms(3) have tv: "takeWhile (\<lambda>c. \<not> isQuote c) (v @ CHR 0x22 # rest) = v"
    by (simp add: takeWhile_append2 list_all_iff isQuote_def)
  from assms(3) have dv: "dropWhile (\<lambda>c. \<not> isQuote c) (v @ CHR 0x22 # rest) = CHR 0x22 # rest"
    by (simp add: dropWhile_append2 list_all_iff isQuote_def)
  have "matchAt ?s = Some (k, v, rest)"
    unfolding matchAt_def t d using assms(1) by (auto simp: Let_def isQuote_def tv [unfolded isQuote_def] dv [unfolded isQuote_def])
  then show ?thesis
    by simp
qed

lemma matchAt_needs_quote:
  "matchAt s = Some m \<Longrightarrow> \<exists>c\<in>set s. isQuote c"
proof -
  assume "matchAt s = Some m"
  then have "prefix [CHR ''='', CHR 0x22] (dropWhile isKeyChar s)"
    by (auto simp: matchAt_def Let_def split: if_splits)
  then have "CHR 0x22 \<in> set (dropWhile isKeyChar s)"
    by (auto simp: prefix_def)
  then have "CHR 0x22 \<in> set s"
    by (rule set_mp [OF set_dropWhileD [THEN subsetI], rotated]) 
  then show ?thesis
    by (auto simp: isQuote_def)
qed

lemma exec_no_quote:
  "list_all (\<lambda>c. \<not> isQuote c) s \<Longrightarrow> exec s = None"
proof (induction s)
  case Nil
  then show ?case by simp
next
  case (Cons c cs)
  have "matchAt (c # cs) = None"
  proof (rule ccontr)
    assume "matchAt (c # cs) \<noteq> None"
    then obtain m where "matchAt (c # cs) = Some m" by blast
    from matchAt_needs_quote [OF this] Cons.prems show False
      by (auto simp: list_all_iff)
  qed
  with Cons show ?case by simp
qed

lemma matchAt_in_separator:
  assumes "list_all (\<lambda>c. \<not> isQuote c) sep" and "sep \<noteq> []" and "\<not> isKeyChar (last sep)"
    and "k \<noteq> []" and "list_all isKeyChar k"
  shows "matchAt (sep @ k @ rest) = None"
proof -
  let ?d = "dropWhile isKeyChar sep"
  from assms(2,3) have l: "last sep \<in> set sep" "\<not> isKeyChar (last sep)"
    by simp_all
  then have t: "takeWhile isKeyChar (sep @ k @ rest) = takeWhile isKeyChar sep"
    by (simp add: takeWhile_append1)
  from l have d: "dropWhile isKeyChar (sep @ k @ rest) = ?d @ k @ rest"
    by (simp add: dropWhile_append1)
  from l have ne: "?d \<noteq> []"
    by (auto simp: dropWhile_eq_Nil_conv)
  have nq: "CHR 0x22 \<notin> set ?d"
    using assms(1) set_dropWhileD [of "CHR 0x22" isKeyChar sep]
    by (auto simp: list_all_iff isQuote_def)
  from assms(4,5) have hk: "hd k \<noteq> CHR 0x22"
    by (cases k) (auto simp: isKeyChar_def)
  have "\<not> prefix [CHR ''='', CHR 0x22] (?d @ k @ rest)"
  proof (cases ?d)
    case Nil
    with ne show ?thesis by simp
  next
    case (Cons x xs)
    show ?thesis
    proof (cases xs)
      case Nil
      with Cons hk assms(4) show ?thesis
        by (cases k) simp_all
    next
      case (Cons y ys)
      with \<open>?d = x # xs\<close> nq show ?thesis
        by auto
    qed
  qed
  then show ?thesis
    unfolding matchAt_def t d by (simp add: Let_def)
qed

lemma exec_item:
  assumes "wellFormed (sep, k, v)"
  shows "exec (item (sep, k, v) @ rest) = Some (k, v, rest)"
  using assms
proof (induction sep)
  case Nil
  then have k: "k \<noteq> []" "list_all isKeyChar k" "list_all (\<lambda>c. \<not> isQuote c) v"
    by (simp_all add: wellFormed_def)
  from matchAt_key [OF k, of rest] k(1) show ?case
    by (cases k) (simp_all add: item_def)
next
  case (Cons c sep)
  then have w: "wellFormed (sep, k, v)"
    by (auto simp: wellFormed_def split: if_splits)
  from Cons.prems have "matchAt ((c # sep) @ k @ ([CHR ''='', CHR 0x22] @ v @ [CHR 0x22] @ rest)) = None"
    by (intro matchAt_in_separator) (auto simp: wellFormed_def)
  with Cons.IH [OF w] show ?case
    by (simp add: item_def)
qed

lemma scanAttrs_items:
  assumes "list_all wellFormed its" and "list_all (\<lambda>c. \<not> isQuote c) rest"
  shows "scanAttrs (concat (map item its) @ rest) = map snd its"
  using assms(1)
proof (induction its)
  case Nil
  from exec_no_quote [OF assms(2)] show ?case
    by simp
next
  case (Cons it its)
  obtain sep k v where it: "it = (sep, k, v)"
    by (cases it)
  from Cons.prems it have "exec (item it @ concat (map item its) @ rest) =
      Some (k, v, concat (map item its) @ rest)"
    by (simp add: exec_item)
  with Cons it show ?case
    by simp
qed

lemma map_of_assign_loop:
  assumes "ky \<noteq> ''__proto__''" and "ky \<noteq> []"
  shows "map_of (foldl (\<lambda>obj (k, v). if k \<noteq> [] then assign obj k v else obj) obj kvs) ky =
         (case map_of (rev kvs) ky of
            None \<Rightarrow> map_of obj ky
          | Some v \<Rightarrow> Some v)"
proof (induction kvs arbitrary: obj)
  case Nil
  show ?case by simp
next
  case (Cons kv kvs)
  obtain k v where kv: "kv = (k, v)"
    by (cases kv)
  let ?f = "\<lambda>obj (k, v). if k \<noteq> [] then assign obj k v else obj"
  let ?obj = "if k \<noteq> [] then assign obj k v else obj"
  from assms have step: "map_of ?obj ky = (if k = ky then Some v else map_of obj ky)"
    by (auto simp: assign_def update_conv')
  have ih: "map_of (foldl ?f ?obj kvs) ky =
            (case map_of (rev kvs) ky of None \<Rightarrow> map_of ?obj ky | Some v \<Rightarrow> Some v)"
    by (rule Cons)
  have unroll: "foldl ?f obj (kv # kvs) = foldl ?f ?obj kvs"
    by (simp add: kv)
  have rv: "map_of (rev (kv # kvs)) ky =
            (case map_of (rev kvs) ky of
               None \<Rightarrow> if k = ky then Some v else None
             | Some w \<Rightarrow> Some w)"
    by (simp add: kv map_add_def split: option.splits)
  show ?case
    unfolding unroll ih step rv by (simp split: option.splits)
qed

lemma map_of_assign_loop_proto:
  "map_of (foldl (\<lambda>obj (k, v). if k \<noteq> [] then assign obj k v else obj) obj kvs) ''__proto__'' =
   map_of obj ''__proto__''"
proof (induction kvs arbitrary: obj)
  case Nil
  show ?case by simp
next
  case (Cons kv kvs)
  obtain k v where kv: "kv = (k, v)"
    by (cases kv)
  let ?obj = "if k \<noteq> [] then assign obj k v else obj"
  have "map_of ?obj ''__proto__'' = map_of obj ''__proto__''"
    by (auto simp: assign_def update_conv')
  with Cons [of ?obj] show ?case
    by (simp add: kv)
qed

text \<open>
  On a marker line made of well-formed attributes and a rest with no double quote, every
  key other than \<^verbatim>\<open>__proto__\<close> is mapped to the text between the quotes of its last
  occurrence, and to nothing when it does not occur.
\<close>

lemma extractAttrs_last_occurrence:
  assumes "list_all wellFormed its" and "list_all (\<lambda>c. \<not> isQuote c) rest"
    and "ky \<noteq> ''__proto__''" and "ky \<noteq> []"
  shows "map_of (extractAttrs (concat (map item its) @ rest)) ky = map_of (rev (map snd its)) ky"
  unfolding extractAttrs_def scanAttrs_items [OF assms(1,2)]
  by (simp add: map_of_assign_loop [OF assms(3,4)] rev_map split: option.splits)

lemma extractAttrs_proto: "map_of (extractAttrs line) ''__proto__'' = None"
  unfolding extractAttrs_def by (simp add: map_of_assign_loop_proto)

text \<open>
  Claim C7 at the marker line
  \<^verbatim>\<open>#EXTINF:-1 __proto__="x" tvg-id="a",N\<close>.
  The scan finds both attributes, and the mapping holds \<^verbatim>\<open>tvg-id\<close> alone: the assignment
  to the key \<^verbatim>\<open>__proto__\<close> of an ordinary object stores nothing.
\<close>

theorem proto_attribute_not_stored:
  "scanAttrs protoLine = [(''__proto__'', ''x''), (''tvg-id'', ''a'')] \<and>
   extractAttrs protoLine = [(''tvg-id'', ''a'')] \<and>
   map_of (extractAttrs protoLine) ''__proto__'' = None \<and>
   map (\<lambda>c. (name c, attrs c)) (parseM3U (joinLines [protoLine, ''http://x/1''])) =
     [(''N'', [(''tvg-id'', ''a'')])]"
  by code_simp

section \<open>Properties of the view\<close>

lemma js_index_None: "\<not> inBounds st \<Longrightarrow> js_index (groups st) (groupIdx st) = None"
  by (cases "groupIdx st") (auto simp: inBounds_def)

text \<open>
  Claim C10.  \<open>applyFilter\<close> has no failing branch.  When \<open>groupIdx\<close> is outside the bounds
  of \<open>groups\<close> (or is \<^verbatim>\<open>NaN\<close>) the active group is \<^verbatim>\<open>All\<close>: the visible set is the catalog
  filtered by the query alone, and the whole catalog when the query is blank.
\<close>

theorem applyFilter_out_of_bounds:
  assumes "\<not> inBounds st"
  shows "activeGroup st = ''All'' \<and>
         filtered (applyFilter st) =
           filter (\<lambda>c. trim (searchValue st) = [] \<or>
                        includes_str (toLowerCase (searchText c))
                                     (toLowerCase (trim (searchValue st)))) (all st) \<and>
         (trim (searchValue st) = [] \<longrightarrow> filtered (applyFilter st) = all st)"
proof -
  from assms have g: "activeGroup st = ''All''"
    by (simp add: activeGroup_def js_index_None)
  have k: "keep (toLowerCase (trim (searchValue st))) ''All'' =
           (\<lambda>c. trim (searchValue st) = [] \<or>
                        includes_str (toLowerCase (searchText c))
                                     (toLowerCase (trim (searchValue st))))"
    by (rule ext) (simp add: keep_def toLowerCase_def)
  have f: "filtered (applyFilter st) =
           filter (\<lambda>c. trim (searchValue st) = [] \<or>
                        includes_str (toLowerCase (searchText c))
                                     (toLowerCase (trim (searchValue st)))) (all st)"
    by (simp add: applyFilter_def Let_def g k)
  from g f show ?thesis by simp
qed

theorem applyFilter_out_of_bounds_witness:
  "\<not> inBounds (initial\<lparr>all := [acmeNews, jazzFM], groups := [''All'', ''News''],
                           groupIdx := Num 5\<rparr>) \<and>
   filtered (applyFilter (initial\<lparr>all := [acmeNews, jazzFM], groups := [''All'', ''News''],
                                   groupIdx := Num 5\<rparr>)) = [acmeNews, jazzFM]"
proof -
  let ?s = "initial\<lparr>all := [acmeNews, jazzFM], groups := [''All'', ''News''],
                     groupIdx := Num 5\<rparr>"
  have h: "\<not> inBounds ?s"
    by (simp add: inBounds_def)
  have q: "trim (searchValue ?s) = []"
    by (simp add: initial_def trim_def)
  from applyFilter_out_of_bounds [OF h] q h show ?thesis
    by simp
qed

lemma groups_applyFilter: "groups (applyFilter st) = groups st"
  by (simp add: applyFilter_def Let_def)



lemma all_applyFilter: "all (applyFilter st) = all st"
  by (simp add: applyFilter_def Let_def)



lemma groups_loadPlaylist:
  "parseM3U text \<noteq> [] \<Longrightarrow>
   groups (loadPlaylist lc (Inr text) st) =
     ''All'' # Sorting_Algorithms.sort lc (collectGroups (parseM3U text))"
  by (simp add: loadPlaylist_def Let_def computeGroups_def groups_applyFilter)

lemma all_loadPlaylist:
  "parseM3U text \<noteq> [] \<Longrightarrow> all (loadPlaylist lc (Inr text) st) = parseM3U text"
  by (simp add: loadPlaylist_def Let_def computeGroups_def all_applyFilter)

lemma parseM3U_example1: "parseM3U example1 = [acmeNews, jazzFM]"
  by code_simp

lemma parseM3U_threeGroups:
  "parseM3U threeGroups =
     [\<lparr>name = ''N'', url = ''http://x/1'', group = Some ''News'', logo = None,
       attrs = [(''group-title'', ''News'')]\<rparr>,
      \<lparr>name = ''M'', url = ''http://x/2'', group = Some ''Music'', logo = None,
       attrs = [(''group-title'', ''Music'')]\<rparr>,
      \<lparr>name = ''S'', url = ''http://x/3'', group = Some ''Sport'', logo = None,
       attrs = [(''group-title'', ''Sport'')]\<rparr>]"
  by code_simp


















lemma includes_str_sublist: "includes_str t q \<longleftrightarrow> sublist q t"
  by (induction t) (simp_all add: sublist_Cons_right)

lemma searchText_eq:
  "searchText c = name c @ '' '' @ (case group c of None \<Rightarrow> [] | Some cg \<Rightarrow> cg)"
  by (simp add: searchText_def truthy_def split: option.splits)

lemma keep_spec_visible: "keep (toLowerCase (trim v)) g = spec_visible (trim v) g"
  by (rule ext)
     (simp add: keep_def spec_visible_def Let_def includes_str_sublist searchText_eq
        toLowerCase_def)

lemma filtered_applyFilter:
  "filtered (applyFilter st) =
     filter (spec_visible (trim (searchValue st)) (activeGroup st)) (all st)"
  by (simp add: applyFilter_def Let_def keep_spec_visible)

lemma activeGroup_eq:
  "groups a = groups b \<Longrightarrow> groupIdx a = groupIdx b \<Longrightarrow> activeGroup a = activeGroup b"
  by (simp add: activeGroup_def)





lemma filtered_submit:
  "filtered (submit v st) = filter (spec_visible (trim v) (activeGroup st)) (all st)"
proof -
  have "activeGroup (st\<lparr>searchValue := v\<rparr>) = activeGroup st"
    by (rule activeGroup_eq) simp_all
  then show ?thesis
    by (simp add: submit_def filtered_applyFilter)
qed

lemma all_loaded1: "all loaded1 = [acmeNews, jazzFM]"
  unfolding loaded1_def by (simp add: all_loadPlaylist parseM3U_example1)

lemma groups_loaded1: "groups loaded1 = [''All'', ''News'']"
proof -
  have "Sorting_Algorithms.sort default (collectGroups (parseM3U example1)) = [''News'']"
    unfolding parseM3U_example1 by code_simp
  then show ?thesis
    unfolding loaded1_def by (simp add: groups_loadPlaylist parseM3U_example1)
qed





lemma set_add_props:
  "distinct s \<Longrightarrow> distinct (set_add s x)" "set (set_add s x) = insert x (set s)"
  by (auto simp: set_add_def)

lemma collect_step:
  fixes f :: "string list \<Rightarrow> Channel \<Rightarrow> string list"
  defines "f \<equiv> \<lambda>s c. case group c of None \<Rightarrow> s | Some g \<Rightarrow> if g \<noteq> [] then set_add s g else s"
  assumes "distinct s"
  shows "distinct (foldl f s cs) \<and>
         set (foldl f s cs) = set s \<union> {g. g \<noteq> [] \<and> (\<exists>c\<in>set cs. group c = Some g)}"
  using assms(2)
proof (induction cs arbitrary: s)
  case Nil
  then show ?case by simp
next
  case (Cons c cs)
  have d: "distinct (f s c)"
    using Cons.prems by (simp add: f_def set_add_props split: option.splits)
  have s: "set (f s c) = set s \<union> {g. g \<noteq> [] \<and> group c = Some g}"
    by (auto simp: f_def set_add_props split: option.splits)
  from Cons.IH [OF d] show ?case
    by (auto simp: s)
qed

lemma collectGroups_props:
  "distinct (collectGroups cs)"
  "set (collectGroups cs) = {g. g \<noteq> [] \<and> (\<exists>c\<in>set cs. group c = Some g)}"
  using collect_step [of "[]" cs] by (simp_all add: collectGroups_def)

lemma group_mkChannel: "group (mkChannel l u) \<noteq> Some []"
  by (simp add: mkChannel_def Let_def orElse_def truthy_def split: option.splits)

lemma group_parseM3U: "c \<in> set (parseM3U text) \<Longrightarrow> group c \<noteq> Some []"
  unfolding parseM3U_def by (auto dest!: parseLines_records simp: group_mkChannel)

lemma distinct_sort: "distinct (Sorting_Algorithms.sort lc xs) = distinct xs"
  by (rule mset_eq_imp_distinct_iff) simp

text \<open>
  Claim C6.  After a load or reload that succeeds, \<open>groups\<close> is \<^verbatim>\<open>All\<close> followed by the group
  labels of the loaded channels, each once, in ascending order of the comparison.
\<close>

theorem groups_after_load:
  assumes "parseM3U text \<noteq> []"
  shows "\<exists>ls. groups (loadPlaylist lc (Inr text) st) = ''All'' # ls \<and>
              distinct ls \<and> Sorting_Algorithms.sorted lc ls \<and>
              set ls = {g. \<exists>c\<in>set (all (loadPlaylist lc (Inr text) st)). group c = Some g}"
proof -
  let ?ls = "Sorting_Algorithms.sort lc (collectGroups (parseM3U text))"
  have "{g. g \<noteq> [] \<and> (\<exists>c\<in>set (parseM3U text). group c = Some g)} =
        {g. \<exists>c\<in>set (parseM3U text). group c = Some g}"
    by (auto dest: group_parseM3U)
  then have "set ?ls = {g. \<exists>c\<in>set (all (loadPlaylist lc (Inr text) st)). group c = Some g}"
    by (simp add: collectGroups_props all_loadPlaylist [OF assms])
  moreover have "distinct ?ls"
    by (simp add: distinct_sort collectGroups_props)
  moreover have "Sorting_Algorithms.sorted lc ?ls"
    by simp
  ultimately show ?thesis
    using groups_loadPlaylist [OF assms] by blast
qed

theorem groups_after_load_witness:
  "groups (loadPlaylist default (Inr threeGroups) initial) = [''All'', ''Music'', ''News'', ''Sport''] \<and>
   Sorting_Algorithms.sorted default [''Music'', ''News'', ''Sport'']"
proof -
  have ne: "parseM3U threeGroups \<noteq> []"
    by (simp add: parseM3U_threeGroups)
  have s: "Sorting_Algorithms.sort default (collectGroups (parseM3U threeGroups)) =
        [''Music'', ''News'', ''Sport'']"
    unfolding parseM3U_threeGroups by code_simp
  from groups_after_load [OF ne, of default initial]
  obtain ls where g: "groups (loadPlaylist default (Inr threeGroups) initial) = ''All'' # ls"
    and o: "Sorting_Algorithms.sorted default ls"
    by blast
  from g s have "ls = [''Music'', ''News'', ''Sport'']"
    by (simp add: groups_loadPlaylist [OF ne])
  with g o show ?thesis
    by simp
qed






lemma loadPlaylist_fetch_failed:
  "loadPlaylist lc (Inl msg) st = st\<lparr>footer := Failed msg\<rparr>"
  by (simp add: loadPlaylist_def)

text \<open>
  Claim C2 at a reload whose text has no entry.  The catalog of Example 1 is loaded; the
  reload fetches the empty text.  The error is shown, \<open>groups\<close> and the rows on display stay,
  but \<open>all\<close> is already the empty result of the parse: the next edit of the search box
  (here to the empty query) leaves nothing on display.
\<close>

theorem reload_empty_playlist_clears_catalog:
  "all loaded1 = [acmeNews, jazzFM] \<and>
   footer (loadPlaylist default (Inr []) loaded1) = Failed ''No channels found in playlist.'' \<and>
   groups (loadPlaylist default (Inr []) loaded1) = [''All'', ''News''] \<and>
   all (loadPlaylist default (Inr []) loaded1) = [] \<and>
   filtered (submit [] (loadPlaylist default (Inr []) loaded1)) = []"
proof -
  have p: "parseM3U [] = []"
    by code_simp
  have l: "loadPlaylist default (Inr []) loaded1 =
           loaded1\<lparr>footer := Downloading, all := [],
                    footer := Failed ''No channels found in playlist.''\<rparr>"
    by (simp add: loadPlaylist_def Let_def p)
  show ?thesis
    unfolding l by (simp add: all_loaded1 groups_loaded1 filtered_submit)
qed

end
